theory Spec2Isabelle
  imports Main "HOL-Library.Code_Target_Numeral"
begin

section \<open>Day 9 of year 2016: lengths of decompressed sequences\<close>

text \<open>
  The development follows \<^verbatim>\<open>src/year2016/day09/solution.py\<close>. A Python \<^verbatim>\<open>str\<close> is
  modelled as a \<open>string\<close>; only the code points below 256 are covered, and among those
  the class \<^verbatim>\<open>\d\<close> of Python's \<^verbatim>\<open>re\<close> module is exactly the ten characters
  \<^verbatim>\<open>0\<close> to \<^verbatim>\<open>9\<close>. Python integers are unbounded: positions and decoded digit runs
  are \<open>nat\<close> (they are never negative), computed lengths are \<open>int\<close>.

  Two calls of the source can raise in CPython although the source has no \<^verbatim>\<open>raise\<close>:
  \<^verbatim>\<open>int(text)\<close> raises \<^verbatim>\<open>ValueError\<close> when the text has more than 4300 digits (the
  default of \<^verbatim>\<open>sys.get_int_max_str_digits()\<close> since CPython 3.11), and
  \<^verbatim>\<open>Pattern.search(string, pos)\<close> raises \<^verbatim>\<open>OverflowError\<close> when \<^verbatim>\<open>pos\<close> exceeds
  \<^verbatim>\<open>sys.maxsize\<close> (the largest C \<^verbatim>\<open>ssize_t\<close>; \<open>2 ^ 63 - 1\<close> on a 64-bit build).
  Both are branches of the model. The depth of the call stack and memory are not
  modelled.
\<close>

datatype error = ValueError | OverflowError

definition int_max_str_digits :: nat where
  "int_max_str_digits = 4300"

definition sys_maxsize :: nat where
  "sys_maxsize = 9223372036854775807"

subsection \<open>The marker and the regular expression\<close>

text \<open>
  The dataclass \<^verbatim>\<open>Marker\<close>. The field \<^verbatim>\<open>end\<close> is named \<open>endp\<close> here; the attribute
  \<^verbatim>\<open>length\<close>, set by \<^verbatim>\<open>__post_init__\<close> to \<^verbatim>\<open>end - start\<close>, is \<open>mlength\<close>.
\<close>

record marker =
  start :: nat
  endp :: nat
  n_chars :: nat
  n_reps :: nat

definition mlength :: "marker \<Rightarrow> int" where
  "mlength m = int (endp m) - int (start m)"

text \<open>What a successful \<^verbatim>\<open>re.Match\<close> gives: \<^verbatim>\<open>start()\<close>, \<^verbatim>\<open>end()\<close>, \<^verbatim>\<open>group(1)\<close>, \<^verbatim>\<open>group(2)\<close>.\<close>

record rmatch =
  m_start :: nat
  m_end :: nat
  group1 :: string
  group2 :: string

definition is_digit :: "char \<Rightarrow> bool" where
  "is_digit c = (c \<in> set ''0123456789'')"

text \<open>
  The pattern \<^verbatim>\<open>\((\d+)x(\d+)\)\<close> matched at the head of a text. Neither \<^verbatim>\<open>x\<close> nor
  \<^verbatim>\<open>)\<close> is a digit, so a greedy \<^verbatim>\<open>\d+\<close> that gave back a digit would leave a digit where
  the pattern wants \<^verbatim>\<open>x\<close> or \<^verbatim>\<open>)\<close>: the pattern matches exactly when each group is the
  whole, non-empty run of digits. The result is the two groups and the length of the
  token.
\<close>

definition match_here :: "string \<Rightarrow> (string \<times> string \<times> nat) option" where
  "match_here cs =
     (case cs of
        [] \<Rightarrow> None
      | c # r1 \<Rightarrow>
          if c \<noteq> CHR ''('' then None
          else
            let g1 = takeWhile is_digit r1; r2 = dropWhile is_digit r1 in
            if g1 = [] then None
            else
              (case r2 of
                 [] \<Rightarrow> None
               | c2 # r3 \<Rightarrow>
                   if c2 \<noteq> CHR ''x'' then None
                   else
                     let g2 = takeWhile is_digit r3; r4 = dropWhile is_digit r3 in
                     if g2 = [] then None
                     else
                       (case r4 of
                          [] \<Rightarrow> None
                        | c3 # _ \<Rightarrow>
                            if c3 \<noteq> CHR '')'' then None
                            else Some (g1, g2, length g1 + length g2 + 3))))"

text \<open>
  The leftmost match in a text whose first character has index \<open>i\<close> in the whole
  sequence: the candidate positions are tried from left to right.
\<close>

fun search_list :: "string \<Rightarrow> nat \<Rightarrow> rmatch option" where
  "search_list [] i = None"
| "search_list (c # cs) i =
     (case match_here (c # cs) of
        Some (g1, g2, n) \<Rightarrow> Some \<lparr>m_start = i, m_end = i + n, group1 = g1, group2 = g2\<rparr>
      | None \<Rightarrow> search_list cs (Suc i))"

text \<open>
  \<^verbatim>\<open>marker_pattern.search(compressed_sequence, pos)\<close> for \<open>0 \<le> pos \<le> sys.maxsize\<close>: the
  search starts at index \<open>pos\<close>, and finds nothing when \<open>pos\<close> is beyond the end.
\<close>

definition search :: "string \<Rightarrow> nat \<Rightarrow> rmatch option" where
  "search s pos = search_list (drop pos s) pos"

text \<open>\<^verbatim>\<open>int(text)\<close> on a run of decimal digits.\<close>

definition digit_value :: "char \<Rightarrow> nat" where
  "digit_value c = of_char c - 48"

definition decimal :: "string \<Rightarrow> nat" where
  "decimal ds = foldl (\<lambda>n c. 10 * n + digit_value c) 0 ds"

definition py_int :: "string \<Rightarrow> error + nat" where
  "py_int ds = (if length ds > int_max_str_digits then Inl ValueError else Inr (decimal ds))"

subsection \<open>The enumeration of the markers\<close>

text \<open>The construction \<^verbatim>\<open>Marker(start=..., end=..., n_chars=int(...), n_reps=int(...))\<close>.\<close>

definition make_marker :: "rmatch \<Rightarrow> error + marker" where
  "make_marker mt =
     (case py_int (group1 mt) of
        Inl e \<Rightarrow> Inl e
      | Inr nc \<Rightarrow>
          (case py_int (group2 mt) of
             Inl e \<Rightarrow> Inl e
           | Inr nr \<Rightarrow> Inr \<lparr>start = m_start mt, endp = m_end mt, n_chars = nc, n_reps = nr\<rparr>))"

text \<open>The search with an explicit position, which CPython converts to a \<^verbatim>\<open>ssize_t\<close>.\<close>

definition search_at :: "string \<Rightarrow> nat \<Rightarrow> error + rmatch option" where
  "search_at s pos = (if pos > sys_maxsize then Inl OverflowError else Inr (search s pos))"

text \<open>
  The \<^verbatim>\<open>while match is not None\<close> loop of \<^verbatim>\<open>get_markers\<close>; its state is the current
  match and the list \<^verbatim>\<open>markers\<close>.
\<close>

function markers_loop :: "string \<Rightarrow> rmatch option \<Rightarrow> marker list \<Rightarrow> error + marker list" where
  "markers_loop s None markers = Inr markers"
| "markers_loop s (Some mt) markers =
     (case make_marker mt of
        Inl e \<Rightarrow> Inl e
      | Inr m \<Rightarrow>
          (case search_at s (endp m + n_chars m) of
             Inl e \<Rightarrow> Inl e
           | Inr match' \<Rightarrow> markers_loop s match' (markers @ [m])))"
  by pat_completeness auto

text \<open>What a match at the head of a text looks like, and where a found match lies.\<close>

lemma match_here_SomeD:
  assumes "match_here cs = Some (g1, g2, n)"
  shows "n = length g1 + length g2 + 3" and "g1 \<noteq> []" and "g2 \<noteq> []"
    and "\<exists>rest. cs = CHR ''('' # g1 @ CHR ''x'' # g2 @ CHR '')'' # rest"
    and "g1 = takeWhile is_digit (tl cs)"
proof -
  from assms obtain r1 where cs: "cs = CHR ''('' # r1"
    by (auto simp: match_here_def split: list.splits if_splits)
  let ?r2 = "dropWhile is_digit r1"
  from assms cs have g1: "g1 = takeWhile is_digit r1" and g1n: "takeWhile is_digit r1 \<noteq> []"
    by (auto simp: match_here_def Let_def split: list.splits if_splits)
  from assms cs g1n obtain r3 where r2: "?r2 = CHR ''x'' # r3"
    by (auto simp: match_here_def Let_def split: list.splits if_splits)
  let ?r4 = "dropWhile is_digit r3"
  from assms cs g1n r2 have g2: "g2 = takeWhile is_digit r3" and g2n: "takeWhile is_digit r3 \<noteq> []"
    and n: "n = length g1 + length g2 + 3"
    by (auto simp: match_here_def Let_def split: list.splits if_splits)
  from assms cs g1n r2 g2n obtain r5 where r4: "?r4 = CHR '')'' # r5"
    by (auto simp: match_here_def Let_def split: list.splits if_splits)
  have "r1 = g1 @ ?r2" by (simp add: g1)
  moreover have "r3 = g2 @ ?r4" by (simp add: g2)
  ultimately have "cs = CHR ''('' # g1 @ CHR ''x'' # g2 @ CHR '')'' # r5"
    using cs r2 r4 by simp
  then show "\<exists>rest. cs = CHR ''('' # g1 @ CHR ''x'' # g2 @ CHR '')'' # rest" by blast
  show "n = length g1 + length g2 + 3" by (rule n)
  show "g1 \<noteq> []" using g1 g1n by simp
  show "g2 \<noteq> []" using g2 g2n by simp
  show "g1 = takeWhile is_digit (tl cs)" using g1 cs by simp
qed

lemma match_here_bounds:
  assumes "match_here cs = Some (g1, g2, n)"
  shows "5 \<le> n" and "n \<le> length cs"
proof -
  from match_here_SomeD[OF assms] obtain rest where
    n: "n = length g1 + length g2 + 3" and "g1 \<noteq> []" "g2 \<noteq> []"
    and cs: "cs = CHR ''('' # g1 @ CHR ''x'' # g2 @ CHR '')'' # rest" by blast
  then have "1 \<le> length g1" "1 \<le> length g2" by (simp_all add: Suc_le_eq)
  then show "5 \<le> n" using n by simp
  have "length cs = length g1 + length g2 + 3 + length rest" by (subst cs) simp
  then show "n \<le> length cs" using n by simp
qed

lemma search_list_bounds:
  "search_list cs i = Some mt \<Longrightarrow>
     i \<le> m_start mt \<and> m_start mt + 5 \<le> m_end mt \<and> m_end mt \<le> i + length cs"
proof (induction cs arbitrary: i)
  case Nil
  then show ?case by simp
next
  case (Cons c cs)
  show ?case
  proof (cases "match_here (c # cs)")
    case None
    with Cons.prems have "search_list cs (Suc i) = Some mt" by simp
    from Cons.IH[OF this] show ?thesis by simp
  next
    case (Some r)
    obtain g1 g2 n where r: "r = (g1, g2, n)" by (cases r)
    from Some r Cons.prems have mt: "m_start mt = i" "m_end mt = i + n" by auto
    from match_here_bounds[OF Some[unfolded r]] mt show ?thesis by simp
  qed
qed

lemma search_bounds:
  assumes "search s pos = Some mt"
  shows "pos \<le> m_start mt" and "m_start mt + 5 \<le> m_end mt" and "m_end mt \<le> length s"
proof -
  from assms have sl: "search_list (drop pos s) pos = Some mt" by (simp add: search_def)
  then have "drop pos s \<noteq> []" by auto
  then have "pos < length s" by simp
  with search_list_bounds[OF sl]
  show "pos \<le> m_start mt" "m_start mt + 5 \<le> m_end mt" "m_end mt \<le> length s" by simp_all
qed

lemma make_marker_InrD:
  "make_marker mt = Inr m \<Longrightarrow> start m = m_start mt \<and> endp m = m_end mt"
  by (auto simp: make_marker_def split: sum.splits)

termination markers_loop
proof (relation "measure (\<lambda>(s, mo, acc). case mo of None \<Rightarrow> 0 | Some mt \<Rightarrow> Suc (length s - m_end mt))")
  show "wf (measure (\<lambda>(s, mo, acc). case mo of None \<Rightarrow> 0 | Some mt \<Rightarrow> Suc (length s - m_end mt)))"
    by simp
next
  fix s :: string and mt :: rmatch and markers :: "marker list" and m :: marker and match' :: "rmatch option"
  assume mk: "make_marker mt = Inr m" and sa: "search_at s (endp m + n_chars m) = Inr match'"
  show "((s, match', markers @ [m]), (s, Some mt, markers))
       \<in> measure (\<lambda>(s, mo, acc). case mo of None \<Rightarrow> 0 | Some mt \<Rightarrow> Suc (length s - m_end mt))"
  proof (cases match')
    case None
    then show ?thesis by simp
  next
    case (Some mt')
    with sa have "search s (endp m + n_chars m) = Some mt'"
      by (simp add: search_at_def split: if_splits)
    from search_bounds[OF this] make_marker_InrD[OF mk]
    have "m_end mt < m_end mt'" "m_end mt' \<le> length s" by simp_all
    then show ?thesis using Some by simp
  qed
qed

text \<open>The function \<^verbatim>\<open>get_markers\<close>: the first search has no position.\<close>

definition get_markers :: "string \<Rightarrow> error + marker list" where
  "get_markers compressed_sequence =
     markers_loop compressed_sequence (search compressed_sequence 0) []"

text \<open>A match that some search in \<open>s\<close> has returned, or no match.\<close>

definition found_in :: "string \<Rightarrow> rmatch option \<Rightarrow> bool" where
  "found_in s mo = (case mo of None \<Rightarrow> True | Some mt \<Rightarrow> (\<exists>pos. search s pos = Some mt))"

lemma found_in_search: "found_in s (search s pos)"
  by (auto simp: found_in_def split: option.splits)

lemma search_at_InrD: "search_at s pos = Inr mo \<Longrightarrow> mo = search s pos"
  by (simp add: search_at_def split: if_splits)

lemma markers_loop_bounds:
  "markers_loop s mo acc = Inr ms \<Longrightarrow> found_in s mo \<Longrightarrow>
   \<forall>m \<in> set acc. start m + 5 \<le> endp m \<and> endp m \<le> length s \<Longrightarrow>
   \<forall>m \<in> set ms. start m + 5 \<le> endp m \<and> endp m \<le> length s"
proof (induction s mo acc rule: markers_loop.induct)
  case (1 s markers)
  then show ?case by simp
next
  case (2 s mt markers)
  from "2.prems"(1) obtain m mo' where mk: "make_marker mt = Inr m"
    and sa: "search_at s (endp m + n_chars m) = Inr mo'"
    and rest: "markers_loop s mo' (markers @ [m]) = Inr ms"
    by (auto split: sum.splits)
  from "2.prems"(2) obtain pos where "search s pos = Some mt"
    by (auto simp: found_in_def)
  from search_bounds[OF this] make_marker_InrD[OF mk]
  have m: "start m + 5 \<le> endp m \<and> endp m \<le> length s" by simp
  have f: "found_in s mo'" using search_at_InrD[OF sa] by (simp add: found_in_search)
  show ?case
    by (rule "2.IH"[OF mk sa rest f]) (use m "2.prems"(3) in auto)
qed

lemma get_markers_bounds:
  assumes "get_markers s = Inr ms" and "m \<in> set ms"
  shows "start m + 5 \<le> endp m" and "endp m \<le> length s"
  using markers_loop_bounds[OF assms(1)[unfolded get_markers_def] found_in_search] assms(2)
  by auto

subsection \<open>The two calculators\<close>

definition get_length_decompressed_marker :: "marker \<Rightarrow> int" where
  "get_length_decompressed_marker m =
     int (n_chars m) * int (n_reps m) - int (n_chars m) - mlength m"

definition get_length_decompressed_sequence_part1 :: "string \<Rightarrow> error + int" where
  "get_length_decompressed_sequence_part1 compressed_sequence =
     (case get_markers compressed_sequence of
        Inl e \<Rightarrow> Inl e
      | Inr markers \<Rightarrow>
          Inr (sum_list (map get_length_decompressed_marker markers)
               + int (length compressed_sequence)))"

text \<open>
  The slice \<^verbatim>\<open>sequence[lo:hi]\<close> for \<open>0 \<le> lo \<le> hi\<close>: Python clips both ends to the
  length of the sequence and does not raise.
\<close>

definition slice :: "string \<Rightarrow> nat \<Rightarrow> nat \<Rightarrow> string" where
  "slice s lo hi = take (hi - lo) (drop lo s)"

text \<open>
  The \<^verbatim>\<open>for\<close> loop of part 2 is a left fold over the markers whose state is
  \<^verbatim>\<open>length_decompressed_sequence\<close>; an exception of a recursive call ends the loop.
\<close>

function get_length_decompressed_sequence_part2 :: "string \<Rightarrow> error + int" where
  "get_length_decompressed_sequence_part2 compressed_sequence =
     (case get_markers compressed_sequence of
        Inl e \<Rightarrow> Inl e
      | Inr markers \<Rightarrow>
          foldl
            (\<lambda>acc marker.
               case acc of
                 Inl e \<Rightarrow> Inl e
               | Inr length_decompressed_sequence \<Rightarrow>
                   (case get_length_decompressed_sequence_part2
                           (slice compressed_sequence (endp marker) (endp marker + n_chars marker)) of
                      Inl e \<Rightarrow> Inl e
                    | Inr sub \<Rightarrow>
                        Inr (length_decompressed_sequence + int (n_reps marker) * sub
                             - (int (n_chars marker) + mlength marker))))
            (Inr (int (length compressed_sequence)))
            markers)"
  by pat_completeness auto

lemma slice_shorter:
  assumes "get_markers s = Inr ms" and "m \<in> set ms"
  shows "length (slice s (endp m) (endp m + n_chars m)) < length s"
proof -
  from get_markers_bounds[OF assms] have "0 < endp m" "endp m \<le> length s" by simp_all
  then show ?thesis by (simp add: slice_def)
qed

termination get_length_decompressed_sequence_part2
proof (relation "measure length")
  show "wf (measure (length :: string \<Rightarrow> nat))" by simp
next
  fix compressed_sequence :: string and markers :: "marker list" and acc :: "error + int" and marker :: marker
    and l :: int
  assume "get_markers compressed_sequence = Inr markers" and "marker \<in> set markers"
  from slice_shorter[OF this]
  show "(slice compressed_sequence (endp marker) (endp marker + n_chars marker), compressed_sequence)
        \<in> measure length" by simp
qed

section \<open>The examples of the puzzle\<close>

text \<open>
  C3: the flat calculator returns 11 on \<^verbatim>\<open>A(2x2)BCD(2x2)EFG\<close>, 6 on \<^verbatim>\<open>(6x1)(1x3)A\<close>
  (the text \<^verbatim>\<open>(1x3)\<close> lies in the data of the first marker and is not a marker), and
  18 on \<^verbatim>\<open>X(8x2)(3x3)ABCY\<close>.
\<close>

theorem part1_examples:
  "get_length_decompressed_sequence_part1 ''A(2x2)BCD(2x2)EFG'' = Inr 11
   \<and> get_length_decompressed_sequence_part1 ''(6x1)(1x3)A'' = Inr 6
   \<and> get_markers ''(6x1)(1x3)A'' = Inr [\<lparr>start = 0, endp = 5, n_chars = 6, n_reps = 1\<rparr>]
   \<and> get_length_decompressed_sequence_part1 ''X(8x2)(3x3)ABCY'' = Inr 18"
  by code_simp

text \<open>
  C4: the recursive calculator returns 9 on \<^verbatim>\<open>(3x3)XYZ\<close>, 241920 on
  \<^verbatim>\<open>(27x12)(20x12)(13x14)(7x10)(1x12)A\<close> and 445 on
  \<^verbatim>\<open>(25x3)(3x3)ABC(2x3)XY(5x2)PQRSTX(18x9)(3x2)TWO(5x7)SEVEN\<close>.
\<close>

theorem part2_examples:
  "get_length_decompressed_sequence_part2 ''(3x3)XYZ'' = Inr 9
   \<and> get_length_decompressed_sequence_part2 ''(27x12)(20x12)(13x14)(7x10)(1x12)A'' = Inr 241920
   \<and> get_length_decompressed_sequence_part2
         ''(25x3)(3x3)ABC(2x3)XY(5x2)PQRSTX(18x9)(3x2)TWO(5x7)SEVEN'' = Inr 445"
  by code_simp

text \<open>
  C1 says that the recursive calculator returns 21 on \<^verbatim>\<open>X(8x2)(3x3)ABCY\<close>. It does
  not: the sequence decompresses to \<^verbatim>\<open>XABCABCABCABCABCABCY\<close>, as the docstring of the
  source says, and that has 20 characters.
\<close>

theorem part2_nested_example_not_21:
  "get_length_decompressed_sequence_part2 ''X(8x2)(3x3)ABCY'' \<noteq> Inr 21"
  by code_simp

text \<open>C1, amended: the recursive calculator returns 20 on \<^verbatim>\<open>X(8x2)(3x3)ABCY\<close>.\<close>

theorem part2_nested_example:
  "get_length_decompressed_sequence_part2 ''X(8x2)(3x3)ABCY'' = Inr 20"
  by code_simp

section \<open>The enumeration of the markers, without the accumulator\<close>

lemma markers_loop_acc_all:
  "\<forall>acc. markers_loop s mo acc =
     (case markers_loop s mo [] of Inl e \<Rightarrow> Inl e | Inr ms \<Rightarrow> Inr (acc @ ms))"
proof (rule markers_loop.induct[where P = "\<lambda>s mo _. \<forall>acc. markers_loop s mo acc =
     (case markers_loop s mo [] of Inl e \<Rightarrow> Inl e | Inr ms \<Rightarrow> Inr (acc @ ms))"])
  fix s :: string and markers :: "marker list"
  show "\<forall>acc. markers_loop s None acc =
     (case markers_loop s None [] of Inl e \<Rightarrow> Inl e | Inr ms \<Rightarrow> Inr (acc @ ms))" by simp
next
  fix s :: string and mt :: rmatch and markers :: "marker list"
  assume IH: "\<And>m mo'. make_marker mt = Inr m \<Longrightarrow> search_at s (endp m + n_chars m) = Inr mo' \<Longrightarrow>
     \<forall>acc. markers_loop s mo' acc =
       (case markers_loop s mo' [] of Inl e \<Rightarrow> Inl e | Inr ms \<Rightarrow> Inr (acc @ ms))"
  show "\<forall>acc. markers_loop s (Some mt) acc =
     (case markers_loop s (Some mt) [] of Inl e \<Rightarrow> Inl e | Inr ms \<Rightarrow> Inr (acc @ ms))"
  proof
    fix acc
    show "markers_loop s (Some mt) acc =
     (case markers_loop s (Some mt) [] of Inl e \<Rightarrow> Inl e | Inr ms \<Rightarrow> Inr (acc @ ms))"
    proof (cases "make_marker mt")
      case (Inl e)
      then show ?thesis by simp
    next
      case (Inr m)
      show ?thesis
      proof (cases "search_at s (endp m + n_chars m)")
        case (Inl e)
        with Inr show ?thesis by simp
      next
        case sa: (Inr mo')
        note ih = IH[OF Inr sa]
        have a: "markers_loop s mo' (acc @ [m]) =
          (case markers_loop s mo' [] of Inl e \<Rightarrow> Inl e | Inr ms \<Rightarrow> Inr ((acc @ [m]) @ ms))"
          by (rule ih[rule_format])
        have b: "markers_loop s mo' [m] =
          (case markers_loop s mo' [] of Inl e \<Rightarrow> Inl e | Inr ms \<Rightarrow> Inr ([m] @ ms))"
          by (rule ih[rule_format])
        show ?thesis using Inr sa by (simp add: a b split: sum.splits)
      qed
    qed
  qed
qed

text \<open>The loop without its accumulator: the markers from a match on.\<close>

lemma markers_loop_Some:
  "markers_loop s (Some mt) [] =
     (case make_marker mt of
        Inl e \<Rightarrow> Inl e
      | Inr m \<Rightarrow>
          (case search_at s (endp m + n_chars m) of
             Inl e \<Rightarrow> Inl e
           | Inr mo' \<Rightarrow>
               (case markers_loop s mo' [] of Inl e \<Rightarrow> Inl e | Inr ms \<Rightarrow> Inr (m # ms))))"
proof -
  have "markers_loop s mo' [m] =
     (case markers_loop s mo' [] of Inl e \<Rightarrow> Inl e | Inr ms \<Rightarrow> Inr (m # ms))" for mo' m
    using markers_loop_acc_all[rule_format, of s mo' "[m]"] by (simp split: sum.splits)
  then show ?thesis by (simp split: sum.splits)
qed

declare markers_loop.simps(2) [simp del]

lemma markers_loop_Inr_cases:
  assumes "markers_loop s mo [] = Inr ms"
  shows "(mo = None \<and> ms = []) \<or>
         (\<exists>mt m rest. mo = Some mt \<and> ms = m # rest \<and> make_marker mt = Inr m
            \<and> endp m + n_chars m \<le> sys_maxsize
            \<and> markers_loop s (search s (endp m + n_chars m)) [] = Inr rest)"
proof (cases mo)
  case None
  with assms show ?thesis by simp
next
  case (Some mt)
  with assms show ?thesis
    by (auto simp: markers_loop_Some search_at_def split: sum.splits if_splits)
qed

text \<open>Each marker after the first comes from the search that starts where the data of
  the marker before it ends.\<close>

lemma markers_loop_resume:
  "markers_loop s mo [] = Inr ms \<Longrightarrow> Suc i < length ms \<Longrightarrow>
     \<exists>mt. search s (endp (ms ! i) + n_chars (ms ! i)) = Some mt \<and> make_marker mt = Inr (ms ! Suc i)"
proof (induction ms arbitrary: mo i)
  case Nil
  then show ?case by simp
next
  case (Cons m rest)
  from markers_loop_Inr_cases[OF Cons.prems(1)]
  have rest: "markers_loop s (search s (endp m + n_chars m)) [] = Inr rest" by auto
  show ?case
  proof (cases i)
    case 0
    with Cons.prems(2) have "rest \<noteq> []" by auto
    with markers_loop_Inr_cases[OF rest] obtain mt where
      "search s (endp m + n_chars m) = Some mt" "make_marker mt = Inr (hd rest)" by auto
    moreover have "rest ! 0 = hd rest" using \<open>rest \<noteq> []\<close> by (simp add: hd_conv_nth)
    ultimately show ?thesis using 0 by simp
  next
    case (Suc j)
    with Cons.prems(2) have "Suc j < length rest" by simp
    from Cons.IH[OF rest this] Suc show ?thesis by simp
  qed
qed

lemma get_markers_first:
  assumes "get_markers s = Inr ms" and "ms \<noteq> []"
  shows "\<exists>mt. search s 0 = Some mt \<and> make_marker mt = Inr (ms ! 0)"
  using markers_loop_Inr_cases[OF assms(1)[unfolded get_markers_def]] assms(2) by auto

lemma get_markers_resume:
  assumes "get_markers s = Inr ms" and "Suc i < length ms"
  shows "\<exists>mt. search s (endp (ms ! i) + n_chars (ms ! i)) = Some mt \<and> make_marker mt = Inr (ms ! Suc i)"
  using markers_loop_resume[OF assms(1)[unfolded get_markers_def] assms(2)] .

lemma get_markers_successively:
  assumes "get_markers s = Inr ms"
  shows "successively (\<lambda>a b. endp a + n_chars a \<le> start b) ms"
  unfolding successively_conv_nth
proof (intro allI impI)
  fix i assume "Suc i < length ms"
  from get_markers_resume[OF assms this] obtain mt where
    s: "search s (endp (ms ! i) + n_chars (ms ! i)) = Some mt" and mk: "make_marker mt = Inr (ms ! Suc i)"
    by blast
  from search_bounds(1)[OF s] make_marker_InrD[OF mk]
  show "endp (ms ! i) + n_chars (ms ! i) \<le> start (ms ! Suc i)" by simp
qed

lemma get_markers_sorted:
  assumes "get_markers s = Inr ms"
  shows "sorted_wrt (\<lambda>a b. endp a + n_chars a \<le> start b) ms"
proof -
  have "successively (\<lambda>a b. endp a + n_chars a \<le> start b) ms \<longleftrightarrow>
        sorted_wrt (\<lambda>a b. endp a + n_chars a \<le> start b) ms"
  proof (rule successively_iff_sorted_wrt_strong)
    fix x y z :: marker
    assume "y \<in> set ms" and xy: "endp x + n_chars x \<le> start y" and yz: "endp y + n_chars y \<le> start z"
    from get_markers_bounds(1)[OF assms \<open>y \<in> set ms\<close>] xy yz
    show "endp x + n_chars x \<le> start z" by simp
  qed
  with get_markers_successively[OF assms] show ?thesis by simp
qed

text \<open>
  C5: the markers come left to right and do not overlap. Every returned marker has
  \<open>start < end\<close>; the first marker is the one the search finds from the start of the
  sequence; the marker after a marker \<open>m\<close> is the one the search finds from
  \<open>end + chars\<close> of \<open>m\<close> on; so every later marker starts at or after \<open>end + chars\<close>
  of every earlier one.
\<close>

theorem get_markers_left_to_right:
  "get_markers s = Inr ms \<Longrightarrow>
     (\<forall>m \<in> set ms. start m < endp m)
     \<and> (ms \<noteq> [] \<longrightarrow> (\<exists>mt. search s 0 = Some mt \<and> make_marker mt = Inr (ms ! 0)))
     \<and> (\<forall>i. Suc i < length ms \<longrightarrow>
           (\<exists>mt. search s (endp (ms ! i) + n_chars (ms ! i)) = Some mt
                 \<and> make_marker mt = Inr (ms ! Suc i)))
     \<and> (\<forall>i j. i < j \<and> j < length ms \<longrightarrow> endp (ms ! i) + n_chars (ms ! i) \<le> start (ms ! j))"
proof (intro conjI ballI allI impI)
  fix m assume "get_markers s = Inr ms" "m \<in> set ms"
  from get_markers_bounds(1)[OF this] show "start m < endp m" by simp
next
  assume "get_markers s = Inr ms" "ms \<noteq> []"
  then show "\<exists>mt. search s 0 = Some mt \<and> make_marker mt = Inr (ms ! 0)"
    by (rule get_markers_first)
next
  fix i assume "get_markers s = Inr ms" "Suc i < length ms"
  then show "\<exists>mt. search s (endp (ms ! i) + n_chars (ms ! i)) = Some mt \<and> make_marker mt = Inr (ms ! Suc i)"
    by (rule get_markers_resume)
next
  fix i j assume g: "get_markers s = Inr ms" and ij: "i < j \<and> j < length ms"
  from get_markers_sorted[OF g] ij
  show "endp (ms ! i) + n_chars (ms ! i) \<le> start (ms ! j)"
    by (simp add: sorted_wrt_iff_nth_less)
qed

theorem get_markers_left_to_right_witness:
  "get_markers ''A(2x2)BCD(2x2)EFG'' =
      Inr [\<lparr>start = 1, endp = 6, n_chars = 2, n_reps = 2\<rparr>, \<lparr>start = 9, endp = 14, n_chars = 2, n_reps = 2\<rparr>]
   \<and> start \<lparr>start = 1, endp = 6, n_chars = 2, n_reps = 2\<rparr> < endp \<lparr>start = 1, endp = 6, n_chars = 2, n_reps = 2\<rparr>
   \<and> start \<lparr>start = 9, endp = 14, n_chars = 2, n_reps = 2\<rparr> < endp \<lparr>start = 9, endp = 14, n_chars = 2, n_reps = 2\<rparr>
   \<and> (\<exists>mt. search ''A(2x2)BCD(2x2)EFG'' 0 = Some mt
           \<and> make_marker mt = Inr \<lparr>start = 1, endp = 6, n_chars = 2, n_reps = 2\<rparr>)
   \<and> (\<exists>mt. search ''A(2x2)BCD(2x2)EFG'' (6 + 2) = Some mt
           \<and> make_marker mt = Inr \<lparr>start = 9, endp = 14, n_chars = 2, n_reps = 2\<rparr>)
   \<and> (6::nat) + 2 \<le> 9"
proof -
  let ?s = "''A(2x2)BCD(2x2)EFG''"
  let ?ms = "[\<lparr>start = 1, endp = 6, n_chars = 2, n_reps = 2\<rparr>, \<lparr>start = 9, endp = 14, n_chars = 2, n_reps = 2\<rparr>]"
  have g: "get_markers ?s = Inr ?ms"
    by code_simp
  from get_markers_left_to_right[OF g] have
    a: "\<forall>m \<in> set ?ms. start m < endp m"
    and f: "?ms \<noteq> [] \<longrightarrow> (\<exists>mt. search ?s 0 = Some mt \<and> make_marker mt = Inr (?ms ! 0))"
    and b: "\<forall>i. Suc i < length ?ms \<longrightarrow>
           (\<exists>mt. search ?s (endp (?ms ! i) + n_chars (?ms ! i)) = Some mt
                 \<and> make_marker mt = Inr (?ms ! Suc i))"
    and c: "\<forall>i j. i < j \<and> j < length ?ms \<longrightarrow> endp (?ms ! i) + n_chars (?ms ! i) \<le> start (?ms ! j)"
    by blast+
  from f have first: "\<exists>mt. search ?s 0 = Some mt
           \<and> make_marker mt = Inr \<lparr>start = 1, endp = 6, n_chars = 2, n_reps = 2\<rparr>" by simp
  from b[rule_format, of 0] have nxt:
    "\<exists>mt. search ?s (6 + 2) = Some mt
           \<and> make_marker mt = Inr \<lparr>start = 9, endp = 14, n_chars = 2, n_reps = 2\<rparr>" by simp
  from c[rule_format, of 0 1] have le: "(6::nat) + 2 \<le> 9" by simp
  from a have a1: "start \<lparr>start = 1, endp = 6, n_chars = 2, n_reps = 2\<rparr> < endp \<lparr>start = 1, endp = 6, n_chars = 2, n_reps = 2\<rparr>"
    and a2: "start \<lparr>start = 9, endp = 14, n_chars = 2, n_reps = 2\<rparr> < endp \<lparr>start = 9, endp = 14, n_chars = 2, n_reps = 2\<rparr>"
    by simp_all
  from g a1 a2 first nxt le show ?thesis by (intro conjI)
qed

section \<open>The recursive calculator as a sum over the markers\<close>

text \<open>The data of a marker: the slice the recursive calculator is applied to.\<close>

abbreviation data_region :: "string \<Rightarrow> marker \<Rightarrow> string" where
  "data_region s m \<equiv> slice s (endp m) (endp m + n_chars m)"

text \<open>One turn of the \<^verbatim>\<open>for\<close> loop of part 2.\<close>

definition part2_step :: "string \<Rightarrow> error + int \<Rightarrow> marker \<Rightarrow> error + int" where
  "part2_step s acc marker =
     (case acc of
        Inl e \<Rightarrow> Inl e
      | Inr l \<Rightarrow>
          (case get_length_decompressed_sequence_part2 (data_region s marker) of
             Inl e \<Rightarrow> Inl e
           | Inr sub \<Rightarrow> Inr (l + int (n_reps marker) * sub - (int (n_chars marker) + mlength marker))))"

lemma part2_unfold:
  "get_length_decompressed_sequence_part2 s =
     (case get_markers s of
        Inl e \<Rightarrow> Inl e
      | Inr ms \<Rightarrow> foldl (part2_step s) (Inr (int (length s))) ms)"
proof -
  have "part2_step s = (\<lambda>acc marker.
               case acc of
                 Inl e \<Rightarrow> Inl e
               | Inr l \<Rightarrow>
                   (case get_length_decompressed_sequence_part2
                           (slice s (endp marker) (endp marker + n_chars marker)) of
                      Inl e \<Rightarrow> Inl e
                    | Inr sub \<Rightarrow>
                        Inr (l + int (n_reps marker) * sub
                             - (int (n_chars marker) + mlength marker))))"
    by (intro ext) (simp add: part2_step_def)
  then show ?thesis
    by (subst get_length_decompressed_sequence_part2.simps) (simp split: sum.splits)
qed

declare get_length_decompressed_sequence_part2.simps [simp del]

lemma foldl_part2_step_Inl: "foldl (part2_step s) (Inl e) ms = Inl e"
  by (induction ms) (simp_all add: part2_step_def)

lemma foldl_part2_step_Inr:
  "\<forall>m \<in> set ms. get_length_decompressed_sequence_part2 (data_region s m) = Inr (g m) \<Longrightarrow>
   foldl (part2_step s) (Inr a) ms =
     Inr (a + (\<Sum>m\<leftarrow>ms. int (n_reps m) * g m - (int (n_chars m) + mlength m)))"
proof (induction ms arbitrary: a)
  case Nil
  then show ?case by simp
next
  case (Cons m ms)
  have "part2_step s (Inr a) m = Inr (a + int (n_reps m) * g m - (int (n_chars m) + mlength m))"
    using Cons.prems by (simp add: part2_step_def)
  moreover have "\<forall>m \<in> set ms. get_length_decompressed_sequence_part2 (data_region s m) = Inr (g m)"
    using Cons.prems by simp
  ultimately show ?case using Cons.IH by simp
qed

lemma foldl_part2_step_InrD:
  "foldl (part2_step s) (Inr a) ms = Inr r \<Longrightarrow> m \<in> set ms \<Longrightarrow>
     \<exists>v. get_length_decompressed_sequence_part2 (data_region s m) = Inr v"
proof (induction ms arbitrary: a)
  case Nil
  then show ?case by simp
next
  case (Cons x ms)
  show ?case
  proof (cases "get_length_decompressed_sequence_part2 (data_region s x)")
    case (Inl e)
    then have "part2_step s (Inr a) x = Inl e" by (simp add: part2_step_def)
    with Cons.prems(1) show ?thesis by (simp add: foldl_part2_step_Inl)
  next
    case (Inr v)
    then have st: "part2_step s (Inr a) x = Inr (a + int (n_reps x) * v - (int (n_chars x) + mlength x))"
      by (simp add: part2_step_def)
    show ?thesis
    proof (cases "m = x")
      case True
      with Inr show ?thesis by blast
    next
      case False
      with Cons.prems(2) have "m \<in> set ms" by simp
      moreover from Cons.prems(1) st
      have "foldl (part2_step s) (Inr (a + int (n_reps x) * v - (int (n_chars x) + mlength x))) ms = Inr r"
        by simp
      ultimately show ?thesis by (rule Cons.IH[rotated])
    qed
  qed
qed

text \<open>The length of the decompressed data of a marker, when the recursive call returns.\<close>

definition sub_length :: "string \<Rightarrow> marker \<Rightarrow> int" where
  "sub_length s m =
     (case get_length_decompressed_sequence_part2 (data_region s m) of Inl e \<Rightarrow> 0 | Inr v \<Rightarrow> v)"

lemma part2_InrD:
  assumes "get_length_decompressed_sequence_part2 s = Inr r" and "get_markers s = Inr ms"
  shows "\<forall>m \<in> set ms. get_length_decompressed_sequence_part2 (data_region s m) = Inr (sub_length s m)"
    and "r = int (length s)
             + (\<Sum>m\<leftarrow>ms. int (n_reps m) * sub_length s m - (int (n_chars m) + mlength m))"
proof -
  from assms have f: "foldl (part2_step s) (Inr (int (length s))) ms = Inr r"
    by (simp add: part2_unfold)
  show a: "\<forall>m \<in> set ms. get_length_decompressed_sequence_part2 (data_region s m) = Inr (sub_length s m)"
  proof
    fix m assume "m \<in> set ms"
    from foldl_part2_step_InrD[OF f this] show
      "get_length_decompressed_sequence_part2 (data_region s m) = Inr (sub_length s m)"
      by (auto simp: sub_length_def)
  qed
  from foldl_part2_step_Inr[OF a, of "int (length s)"] f
  show "r = int (length s)
             + (\<Sum>m\<leftarrow>ms. int (n_reps m) * sub_length s m - (int (n_chars m) + mlength m))"
    by simp
qed

lemma part2_InrI:
  assumes "get_markers s = Inr ms"
    and "\<forall>m \<in> set ms. get_length_decompressed_sequence_part2 (data_region s m) = Inr (g m)"
  shows "get_length_decompressed_sequence_part2 s =
     Inr (int (length s) + (\<Sum>m\<leftarrow>ms. int (n_reps m) * g m - (int (n_chars m) + mlength m)))"
  using assms(1) foldl_part2_step_Inr[OF assms(2)] by (simp add: part2_unfold)

text \<open>
  C8: when the scanner finds no marker, both calculators return the length of the
  sequence.
\<close>

theorem no_markers_length:
  "get_markers s = Inr [] \<Longrightarrow>
     get_length_decompressed_sequence_part1 s = Inr (int (length s))
     \<and> get_length_decompressed_sequence_part2 s = Inr (int (length s))"
  by (simp add: get_length_decompressed_sequence_part1_def part2_unfold)

theorem no_markers_length_witness:
  "get_markers ''ADVENT'' = Inr []
   \<and> get_length_decompressed_sequence_part1 ''ADVENT'' = Inr 6
   \<and> get_length_decompressed_sequence_part2 ''ADVENT'' = Inr 6"
proof -
  have g: "get_markers ''ADVENT'' = Inr []" by code_simp
  from no_markers_length[OF g] g show ?thesis by simp
qed

section \<open>Termination of the recursive calculator\<close>

text \<open>
  The recursive calculator with a bound on the depth of the recursion: \<open>None\<close> when
  the bound is reached, the result of the calculator otherwise.
\<close>

fun part2_fuel :: "nat \<Rightarrow> string \<Rightarrow> (error + int) option" where
  "part2_fuel 0 compressed_sequence = None"
| "part2_fuel (Suc k) compressed_sequence =
     (case get_markers compressed_sequence of
        Inl e \<Rightarrow> Some (Inl e)
      | Inr markers \<Rightarrow>
          foldl
            (\<lambda>acc marker.
               case acc of
                 None \<Rightarrow> None
               | Some (Inl e) \<Rightarrow> Some (Inl e)
               | Some (Inr length_decompressed_sequence) \<Rightarrow>
                   (case part2_fuel k
                           (slice compressed_sequence (endp marker) (endp marker + n_chars marker)) of
                      None \<Rightarrow> None
                    | Some (Inl e) \<Rightarrow> Some (Inl e)
                    | Some (Inr sub) \<Rightarrow>
                        Some (Inr (length_decompressed_sequence + int (n_reps marker) * sub
                                   - (int (n_chars marker) + mlength marker)))))
            (Some (Inr (int (length compressed_sequence))))
            markers)"

declare part2_fuel.simps(2) [simp del]

lemma foldl_fuel_step:
  assumes "\<forall>m \<in> set ms. f (data_region s m) =
             Some (get_length_decompressed_sequence_part2 (data_region s m))"
  shows "foldl
            (\<lambda>acc marker.
               case acc of
                 None \<Rightarrow> None
               | Some (Inl e) \<Rightarrow> Some (Inl e)
               | Some (Inr l) \<Rightarrow>
                   (case f (data_region s marker) of
                      None \<Rightarrow> None
                    | Some (Inl e) \<Rightarrow> Some (Inl e)
                    | Some (Inr sub) \<Rightarrow>
                        Some (Inr (l + int (n_reps marker) * sub
                                   - (int (n_chars marker) + mlength marker)))))
            (Some acc) ms
         = Some (foldl (part2_step s) acc ms)"
  using assms
proof (induction ms arbitrary: acc)
  case Nil
  then show ?case by simp
next
  case (Cons m ms)
  have m: "f (data_region s m) = Some (get_length_decompressed_sequence_part2 (data_region s m))"
    using Cons.prems by simp
  have rest: "\<forall>m \<in> set ms. f (data_region s m) =
             Some (get_length_decompressed_sequence_part2 (data_region s m))"
    using Cons.prems by simp
  have step: "(case Some acc of
                 None \<Rightarrow> None
               | Some (Inl e) \<Rightarrow> Some (Inl e)
               | Some (Inr l) \<Rightarrow>
                   (case f (data_region s m) of
                      None \<Rightarrow> None
                    | Some (Inl e) \<Rightarrow> Some (Inl e)
                    | Some (Inr sub) \<Rightarrow>
                        Some (Inr (l + int (n_reps m) * sub
                                   - (int (n_chars m) + mlength m)))))
              = Some (part2_step s acc m)"
    by (simp add: m part2_step_def split: sum.splits)
  show ?case
    by (simp only: foldl_Cons step Cons.IH[OF rest])
qed

lemma part2_fuel_enough:
  "length s < k \<Longrightarrow> part2_fuel k s = Some (get_length_decompressed_sequence_part2 s)"
proof (induction k arbitrary: s)
  case 0
  then show ?case by simp
next
  case (Suc k)
  show ?case
  proof (cases "get_markers s")
    case (Inl e)
    then show ?thesis by (simp add: part2_unfold part2_fuel.simps(2))
  next
    case (Inr ms)
    have "\<forall>m \<in> set ms. part2_fuel k (data_region s m) =
             Some (get_length_decompressed_sequence_part2 (data_region s m))"
    proof
      fix m assume "m \<in> set ms"
      from slice_shorter[OF Inr this] Suc.prems have "length (data_region s m) < k" by simp
      then show "part2_fuel k (data_region s m) =
             Some (get_length_decompressed_sequence_part2 (data_region s m))"
        by (rule Suc.IH)
    qed
    from foldl_fuel_step[of ms "part2_fuel k" s, OF this] Inr
    show ?thesis by (simp add: part2_unfold part2_fuel.simps(2))
  qed
qed

text \<open>
  C10: the recursive calculator terminates. Every recursive call is on a sequence
  strictly shorter than the caller's; a sequence without markers is the base case and
  gives its own length; and a recursion depth of one more than the length of the
  sequence is enough for the result on every sequence.
\<close>

theorem part2_terminates:
  "(\<forall>ms m. get_markers s = Inr ms \<and> m \<in> set ms \<longrightarrow> length (data_region s m) < length s)
   \<and> (get_markers s = Inr [] \<longrightarrow> get_length_decompressed_sequence_part2 s = Inr (int (length s)))
   \<and> part2_fuel (Suc (length s)) s = Some (get_length_decompressed_sequence_part2 s)"
proof (intro conjI allI impI)
  fix ms m assume "get_markers s = Inr ms \<and> m \<in> set ms"
  then show "length (data_region s m) < length s" using slice_shorter by blast
next
  assume "get_markers s = Inr []"
  then show "get_length_decompressed_sequence_part2 s = Inr (int (length s))"
    by (simp add: part2_unfold)
next
  show "part2_fuel (Suc (length s)) s = Some (get_length_decompressed_sequence_part2 s)"
    by (rule part2_fuel_enough) simp
qed

theorem part2_terminates_witness:
  "get_markers ''X(8x2)(3x3)ABCY'' = Inr [\<lparr>start = 1, endp = 6, n_chars = 8, n_reps = 2\<rparr>]
   \<and> length (slice ''X(8x2)(3x3)ABCY'' 6 (6 + 8)) < length ''X(8x2)(3x3)ABCY''
   \<and> part2_fuel (Suc (length ''X(8x2)(3x3)ABCY'')) ''X(8x2)(3x3)ABCY'' = Some (Inr 20)
   \<and> get_markers ''ABC'' = Inr []
   \<and> get_length_decompressed_sequence_part2 ''ABC'' = Inr 3"
proof -
  let ?s = "''X(8x2)(3x3)ABCY''"
  let ?m = "\<lparr>start = 1, endp = 6, n_chars = 8, n_reps = 2\<rparr>"
  have g: "get_markers ?s = Inr [?m]" by code_simp
  have v: "get_length_decompressed_sequence_part2 ?s = Inr 20" by code_simp
  have e: "get_markers ''ABC'' = Inr []" by code_simp
  have mem: "?m \<in> set [?m]" by (rule list.set_intros(1))
  note t1 = part2_terminates[of ?s]
  from t1 have "\<forall>ms m. get_markers ?s = Inr ms \<and> m \<in> set ms \<longrightarrow> length (data_region ?s m) < length ?s"
    by (rule conjunct1)
  then have "get_markers ?s = Inr [?m] \<and> ?m \<in> set [?m] \<longrightarrow> length (data_region ?s ?m) < length ?s"
    by blast
  with g mem have "length (data_region ?s ?m) < length ?s" by blast
  then have a: "length (slice ?s 6 (6 + 8)) < length ?s"
    by (simp only: marker.select_convs)
  from t1 have "part2_fuel (Suc (length ?s)) ?s = Some (get_length_decompressed_sequence_part2 ?s)"
    by (rule conjunct2[THEN conjunct2])
  then have b: "part2_fuel (Suc (length ?s)) ?s = Some (Inr 20)"
    by (simp only: v)
  from part2_terminates[of "''ABC''"]
  have "get_markers ''ABC'' = Inr [] \<longrightarrow> get_length_decompressed_sequence_part2 ''ABC'' = Inr (int (length ''ABC''))"
    by (rule conjunct2[THEN conjunct1])
  with e have "get_length_decompressed_sequence_part2 ''ABC'' = Inr (int (length ''ABC''))" by blast
  then have c: "get_length_decompressed_sequence_part2 ''ABC'' = Inr 3" by simp
  from g a b e c show ?thesis by (intro conjI)
qed

section \<open>The sign of the results\<close>

text \<open>
  The markers of a sequence and their data lie side by side in the sequence, when the
  data of every marker ends within the sequence: together they are not longer than the
  sequence.
\<close>

lemma compressed_total_le:
  "sorted_wrt (\<lambda>a b. endp a + n_chars a \<le> start b) ms \<Longrightarrow>
   \<forall>m \<in> set ms. lo \<le> start m \<and> start m \<le> endp m \<and> endp m + n_chars m \<le> hi \<Longrightarrow>
   lo \<le> hi \<Longrightarrow>
   (\<Sum>m\<leftarrow>ms. int (n_chars m) + mlength m) + int lo \<le> int hi"
proof (induction ms arbitrary: lo)
  case Nil
  then show ?case by simp
next
  case (Cons m ms)
  from Cons.prems(1) have sorted: "sorted_wrt (\<lambda>a b. endp a + n_chars a \<le> start b) ms"
    and after: "\<forall>b \<in> set ms. endp m + n_chars m \<le> start b" by simp_all
  from Cons.prems(2) have m: "lo \<le> start m" "start m \<le> endp m" "endp m + n_chars m \<le> hi"
    and rest: "\<forall>b \<in> set ms. start b \<le> endp b \<and> endp b + n_chars b \<le> hi" by simp_all
  have "(\<Sum>b\<leftarrow>ms. int (n_chars b) + mlength b) + int (endp m + n_chars m) \<le> int hi"
    by (rule Cons.IH[OF sorted]) (use after rest m in auto)
  moreover have "int (n_chars m) + mlength m + int lo \<le> int (endp m + n_chars m)"
    using m by (simp add: mlength_def)
  ultimately show ?case by simp
qed

lemma get_markers_total_le:
  assumes "get_markers s = Inr ms" and "\<forall>m \<in> set ms. endp m + n_chars m \<le> length s"
  shows "(\<Sum>m\<leftarrow>ms. int (n_chars m) + mlength m) \<le> int (length s)"
proof -
  have "\<forall>m \<in> set ms. 0 \<le> start m \<and> start m \<le> endp m \<and> endp m + n_chars m \<le> length s"
    using get_markers_bounds(1)[OF assms(1)] assms(2) by fastforce
  from compressed_total_le[OF get_markers_sorted[OF assms(1)] this] show ?thesis by simp
qed

lemma part1_nonneg:
  assumes "get_markers s = Inr ms" and "\<forall>m \<in> set ms. endp m + n_chars m \<le> length s"
  shows "\<exists>v. get_length_decompressed_sequence_part1 s = Inr v \<and> 0 \<le> v"
proof -
  have "(\<Sum>m\<leftarrow>ms. get_length_decompressed_marker m) =
        (\<Sum>m\<leftarrow>ms. int (n_chars m) * int (n_reps m)) - (\<Sum>m\<leftarrow>ms. int (n_chars m) + mlength m)"
    by (simp add: get_length_decompressed_marker_def sum_list_subtractf[symmetric] algebra_simps)
  moreover have "0 \<le> (\<Sum>m\<leftarrow>ms. int (n_chars m) * int (n_reps m))"
    by (rule sum_list_nonneg) auto
  moreover note get_markers_total_le[OF assms]
  ultimately have "0 \<le> (\<Sum>m\<leftarrow>ms. get_length_decompressed_marker m) + int (length s)" by linarith
  then show ?thesis using assms(1) by (simp add: get_length_decompressed_sequence_part1_def)
qed

text \<open>
  The scanner returns, the data of every marker ends within the sequence, and the same
  holds in the data of every marker, at every depth.
\<close>

function data_in_bounds :: "string \<Rightarrow> bool" where
  "data_in_bounds s =
     (case get_markers s of
        Inl e \<Rightarrow> False
      | Inr ms \<Rightarrow>
          list_all
            (\<lambda>m. endp m + n_chars m \<le> length s
                  \<and> data_in_bounds (slice s (endp m) (endp m + n_chars m)))
            ms)"
  by pat_completeness auto
termination
proof (relation "measure length")
  show "wf (measure (length :: string \<Rightarrow> nat))" by simp
next
  fix s :: string and ms :: "marker list" and m :: marker
  assume "get_markers s = Inr ms" and "m \<in> set ms"
  from slice_shorter[OF this(1,2)]
  show "(slice s (endp m) (endp m + n_chars m), s) \<in> measure length" by simp
qed

declare data_in_bounds.simps [simp del]

lemma data_in_boundsD:
  assumes "data_in_bounds s"
  obtains ms where "get_markers s = Inr ms"
    and "\<forall>m \<in> set ms. endp m + n_chars m \<le> length s"
    and "\<forall>m \<in> set ms. data_in_bounds (data_region s m)"
  using assms by (subst (asm) data_in_bounds.simps) (auto simp: list_all_iff split: sum.splits)

lemma part2_nonneg:
  "data_in_bounds s \<Longrightarrow> \<exists>v. get_length_decompressed_sequence_part2 s = Inr v \<and> 0 \<le> v"
proof (induction s rule: measure_induct_rule[of length])
  case (less s)
  from less.prems obtain ms where g: "get_markers s = Inr ms"
    and fit: "\<forall>m \<in> set ms. endp m + n_chars m \<le> length s"
    and deep: "\<forall>m \<in> set ms. data_in_bounds (data_region s m)"
    by (rule data_in_boundsD)
  have sub: "get_length_decompressed_sequence_part2 (data_region s m) = Inr (sub_length s m)
             \<and> 0 \<le> sub_length s m" if "m \<in> set ms" for m
  proof -
    from slice_shorter[OF g that] deep that
    have "\<exists>v. get_length_decompressed_sequence_part2 (data_region s m) = Inr v \<and> 0 \<le> v"
      by (intro less.IH) auto
    then show ?thesis by (auto simp: sub_length_def)
  qed
  then have "\<forall>m \<in> set ms. get_length_decompressed_sequence_part2 (data_region s m) = Inr (sub_length s m)"
    by blast
  from part2_InrI[OF g this]
  have v: "get_length_decompressed_sequence_part2 s =
     Inr (int (length s) + (\<Sum>m\<leftarrow>ms. int (n_reps m) * sub_length s m - (int (n_chars m) + mlength m)))" .
  have "(\<Sum>m\<leftarrow>ms. int (n_reps m) * sub_length s m - (int (n_chars m) + mlength m)) =
        (\<Sum>m\<leftarrow>ms. int (n_reps m) * sub_length s m) - (\<Sum>m\<leftarrow>ms. int (n_chars m) + mlength m)"
    by (simp add: sum_list_subtractf)
  moreover have "0 \<le> (\<Sum>m\<leftarrow>ms. int (n_reps m) * sub_length s m)"
    by (rule sum_list_nonneg) (use sub in auto)
  moreover note get_markers_total_le[OF g fit]
  ultimately have "0 \<le> int (length s)
      + (\<Sum>m\<leftarrow>ms. int (n_reps m) * sub_length s m - (int (n_chars m) + mlength m))"
    by linarith
  with v show ?case by simp
qed

text \<open>
  C9 says that every result of a calculator is non-negative. A marker whose data would
  end after the end of the sequence makes both results negative on \<^verbatim>\<open>(5x0)\<close>.
\<close>

theorem negative_length_example:
  "get_length_decompressed_sequence_part1 ''(5x0)'' = Inr (- 5)
   \<and> get_length_decompressed_sequence_part2 ''(5x0)'' = Inr (- 5)
   \<and> (- 5 :: int) < 0"
  by code_simp

text \<open>
  C9, amended: the flat calculator returns a non-negative integer when the scanner
  returns and the data of every marker ends within the sequence; the recursive
  calculator returns a non-negative integer when that holds for the sequence and for
  the data of every marker, at every depth.
\<close>

theorem results_nonneg:
  "(\<forall>ms. get_markers s = Inr ms \<and> (\<forall>m \<in> set ms. endp m + n_chars m \<le> length s) \<longrightarrow>
        (\<exists>v. get_length_decompressed_sequence_part1 s = Inr v \<and> 0 \<le> v))
   \<and> (data_in_bounds s \<longrightarrow> (\<exists>v. get_length_decompressed_sequence_part2 s = Inr v \<and> 0 \<le> v))"
  using part1_nonneg part2_nonneg by blast

theorem results_nonneg_witness:
  "get_markers ''X(8x2)(3x3)ABCY'' = Inr [\<lparr>start = 1, endp = 6, n_chars = 8, n_reps = 2\<rparr>]
   \<and> (6::nat) + 8 \<le> length ''X(8x2)(3x3)ABCY''
   \<and> data_in_bounds ''X(8x2)(3x3)ABCY''
   \<and> (\<exists>v. get_length_decompressed_sequence_part1 ''X(8x2)(3x3)ABCY'' = Inr v \<and> 0 \<le> v)
   \<and> (\<exists>v. get_length_decompressed_sequence_part2 ''X(8x2)(3x3)ABCY'' = Inr v \<and> 0 \<le> v)"
proof -
  let ?s = "''X(8x2)(3x3)ABCY''"
  let ?m = "\<lparr>start = 1, endp = 6, n_chars = 8, n_reps = 2\<rparr>"
  have g: "get_markers ?s = Inr [?m]" by code_simp
  have fit: "\<forall>m \<in> set [?m]. endp m + n_chars m \<le> length ?s" by simp
  have le: "(6::nat) + 8 \<le> length ?s" by simp
  have d: "data_in_bounds ?s" by code_simp
  note t = results_nonneg[of ?s]
  from t have "\<forall>ms. get_markers ?s = Inr ms \<and> (\<forall>m \<in> set ms. endp m + n_chars m \<le> length ?s) \<longrightarrow>
        (\<exists>v. get_length_decompressed_sequence_part1 ?s = Inr v \<and> 0 \<le> v)"
    by (rule conjunct1)
  with g fit have a: "\<exists>v. get_length_decompressed_sequence_part1 ?s = Inr v \<and> 0 \<le> v" by blast
  from t have "data_in_bounds ?s \<longrightarrow> (\<exists>v. get_length_decompressed_sequence_part2 ?s = Inr v \<and> 0 \<le> v)"
    by (rule conjunct2)
  with d have b: "\<exists>v. get_length_decompressed_sequence_part2 ?s = Inr v \<and> 0 \<le> v" by blast
  from g le d a b show ?thesis by (intro conjI)
qed

section \<open>The recursive calculator against the flat one\<close>

lemma data_region_length:
  "endp m + n_chars m \<le> length s \<Longrightarrow> length (data_region s m) = n_chars m"
  by (simp add: slice_def)

lemma get_markers_no_match: "search s 0 = None \<Longrightarrow> get_markers s = Inr []"
  by (simp add: get_markers_def)

lemma part2_eq_part1:
  assumes g: "get_markers s = Inr ms"
    and plain: "\<forall>m \<in> set ms. endp m + n_chars m \<le> length s \<and> search (data_region s m) 0 = None"
  shows "get_length_decompressed_sequence_part2 s = get_length_decompressed_sequence_part1 s"
proof -
  have "\<forall>m \<in> set ms. get_length_decompressed_sequence_part2 (data_region s m) = Inr (int (n_chars m))"
  proof
    fix m assume "m \<in> set ms"
    with plain have fit: "endp m + n_chars m \<le> length s" and none: "search (data_region s m) 0 = None"
      by simp_all
    from get_markers_no_match[OF none]
    have "get_length_decompressed_sequence_part2 (data_region s m) = Inr (int (length (data_region s m)))"
      by (simp add: part2_unfold)
    then show "get_length_decompressed_sequence_part2 (data_region s m) = Inr (int (n_chars m))"
      by (simp only: data_region_length[OF fit])
  qed
  from part2_InrI[OF g this]
  have "get_length_decompressed_sequence_part2 s =
     Inr (int (length s) + (\<Sum>m\<leftarrow>ms. int (n_reps m) * int (n_chars m) - (int (n_chars m) + mlength m)))" .
  moreover have "(\<Sum>m\<leftarrow>ms. int (n_reps m) * int (n_chars m) - (int (n_chars m) + mlength m)) =
                 (\<Sum>m\<leftarrow>ms. get_length_decompressed_marker m)"
    by (simp add: get_length_decompressed_marker_def algebra_simps)
  ultimately show ?thesis using g by (simp add: get_length_decompressed_sequence_part1_def)
qed

lemma part1_le_part2:
  assumes g: "get_markers s = Inr ms"
    and f: "get_length_decompressed_sequence_part1 s = Inr f"
    and r: "get_length_decompressed_sequence_part2 s = Inr r"
    and grow: "\<forall>m \<in> set ms. \<forall>d. get_length_decompressed_sequence_part2 (data_region s m) = Inr d
                 \<longrightarrow> int (n_chars m) \<le> d"
  shows "f \<le> r"
proof -
  note sub = part2_InrD[OF r g]
  have "get_length_decompressed_marker m
          \<le> int (n_reps m) * sub_length s m - (int (n_chars m) + mlength m)" if "m \<in> set ms" for m
  proof -
    from sub(1) grow that have "int (n_chars m) \<le> sub_length s m" by blast
    then have "int (n_reps m) * int (n_chars m) \<le> int (n_reps m) * sub_length s m"
      by (rule mult_left_mono) simp
    then show ?thesis by (simp add: get_length_decompressed_marker_def algebra_simps)
  qed
  then have "(\<Sum>m\<leftarrow>ms. get_length_decompressed_marker m)
               \<le> (\<Sum>m\<leftarrow>ms. int (n_reps m) * sub_length s m - (int (n_chars m) + mlength m))"
    by (rule sum_list_mono)
  moreover from f g have "f = (\<Sum>m\<leftarrow>ms. get_length_decompressed_marker m) + int (length s)"
    by (simp add: get_length_decompressed_sequence_part1_def)
  ultimately show ?thesis using sub(2) by simp
qed

text \<open>
  C2 says that the recursive result is at least the flat result on every sequence, and
  equal to it when the data of no marker holds a marker. On \<^verbatim>\<open>(6x1)(1x1)A\<close> the flat
  result is 6 and the recursive result is 1: the flat calculator counts the six characters
  \<^verbatim>\<open>(1x1)A\<close>, the recursive one decompresses them to \<^verbatim>\<open>A\<close>. On \<^verbatim>\<open>(5x2)AB\<close> the data
  \<^verbatim>\<open>AB\<close> of the marker holds no marker, and the results are 7 and 1: the flat
  calculator counts the five declared characters, the recursive one the two that are
  there.
\<close>

theorem recursive_below_flat_example:
  "get_length_decompressed_sequence_part1 ''(6x1)(1x1)A'' = Inr 6
   \<and> get_length_decompressed_sequence_part2 ''(6x1)(1x1)A'' = Inr 1
   \<and> \<not> (6::int) \<le> 1
   \<and> get_markers ''(5x2)AB'' = Inr [\<lparr>start = 0, endp = 5, n_chars = 5, n_reps = 2\<rparr>]
   \<and> search (slice ''(5x2)AB'' 5 (5 + 5)) 0 = None
   \<and> get_length_decompressed_sequence_part1 ''(5x2)AB'' = Inr 7
   \<and> get_length_decompressed_sequence_part2 ''(5x2)AB'' = Inr 1"
  by code_simp

text \<open>
  C2, amended: when the scanner returns the markers \<open>ms\<close> of a sequence, the recursive
  result equals the flat result if the data of every marker in \<open>ms\<close> ends within the
  sequence and holds no marker; and the recursive result is at least the flat result if
  the data of every marker in \<open>ms\<close> has a recursive result of at least the declared
  count of the marker.
\<close>

theorem recursive_vs_flat:
  "get_markers s = Inr ms \<Longrightarrow>
     ((\<forall>m \<in> set ms. endp m + n_chars m \<le> length s \<and> search (data_region s m) 0 = None) \<longrightarrow>
        get_length_decompressed_sequence_part2 s = get_length_decompressed_sequence_part1 s)
     \<and> (\<forall>f r. get_length_decompressed_sequence_part1 s = Inr f
              \<and> get_length_decompressed_sequence_part2 s = Inr r
              \<and> (\<forall>m \<in> set ms. \<forall>d. get_length_decompressed_sequence_part2 (data_region s m) = Inr d
                     \<longrightarrow> int (n_chars m) \<le> d)
            \<longrightarrow> f \<le> r)"
  using part2_eq_part1 part1_le_part2 by blast

theorem recursive_vs_flat_witness:
  "get_markers ''A(2x2)BCD(2x2)EFG'' =
      Inr [\<lparr>start = 1, endp = 6, n_chars = 2, n_reps = 2\<rparr>, \<lparr>start = 9, endp = 14, n_chars = 2, n_reps = 2\<rparr>]
   \<and> search (slice ''A(2x2)BCD(2x2)EFG'' 6 (6 + 2)) 0 = None
   \<and> search (slice ''A(2x2)BCD(2x2)EFG'' 14 (14 + 2)) 0 = None
   \<and> get_length_decompressed_sequence_part2 ''A(2x2)BCD(2x2)EFG'' =
       get_length_decompressed_sequence_part1 ''A(2x2)BCD(2x2)EFG''
   \<and> get_markers ''X(8x2)(3x3)ABCY'' = Inr [\<lparr>start = 1, endp = 6, n_chars = 8, n_reps = 2\<rparr>]
   \<and> get_length_decompressed_sequence_part2 (slice ''X(8x2)(3x3)ABCY'' 6 (6 + 8)) = Inr 9
   \<and> get_length_decompressed_sequence_part1 ''X(8x2)(3x3)ABCY'' = Inr 18
   \<and> get_length_decompressed_sequence_part2 ''X(8x2)(3x3)ABCY'' = Inr 20
   \<and> (18::int) \<le> 20"
proof -
  let ?s = "''A(2x2)BCD(2x2)EFG''"
  let ?ms = "[\<lparr>start = 1, endp = 6, n_chars = 2, n_reps = 2\<rparr>, \<lparr>start = 9, endp = 14, n_chars = 2, n_reps = 2\<rparr>]"
  let ?t = "''X(8x2)(3x3)ABCY''"
  let ?m = "\<lparr>start = 1, endp = 6, n_chars = 8, n_reps = 2\<rparr>"
  have g: "get_markers ?s = Inr ?ms" by code_simp
  have n1: "search (slice ?s 6 (6 + 2)) 0 = None" by code_simp
  have n2: "search (slice ?s 14 (14 + 2)) 0 = None" by code_simp
  have plain: "\<forall>m \<in> set ?ms. endp m + n_chars m \<le> length ?s \<and> search (data_region ?s m) 0 = None"
    using n1 n2 by simp
  from recursive_vs_flat[OF g] plain
  have eq: "get_length_decompressed_sequence_part2 ?s = get_length_decompressed_sequence_part1 ?s"
    by blast
  have h: "get_markers ?t = Inr [?m]" by code_simp
  have d: "get_length_decompressed_sequence_part2 (slice ?t 6 (6 + 8)) = Inr 9" by code_simp
  have f: "get_length_decompressed_sequence_part1 ?t = Inr 18" by code_simp
  have r: "get_length_decompressed_sequence_part2 ?t = Inr 20" by code_simp
  have grow: "\<forall>m \<in> set [?m]. \<forall>d. get_length_decompressed_sequence_part2 (data_region ?t m) = Inr d
                     \<longrightarrow> int (n_chars m) \<le> d"
    using d by simp
  from recursive_vs_flat[OF h] f r grow have le: "(18::int) \<le> 20" by blast
  from g n1 n2 eq h d f r le show ?thesis by (intro conjI)
qed

section \<open>The size of the numbers in a marker\<close>












section \<open>The states of the loop of the scanner\<close>

text \<open>
  The states that the \<^verbatim>\<open>while\<close> loop of \<^verbatim>\<open>get_markers\<close> comes to on a sequence: the
  current match and the markers appended so far. The scanner comes to a match \<open>mt\<close>
  when \<open>reached s (Some mt) markers\<close> holds for some \<open>markers\<close>.
\<close>

inductive reached :: "string \<Rightarrow> rmatch option \<Rightarrow> marker list \<Rightarrow> bool" where
  start: "reached s (search s 0) []"
| turn: "reached s (Some mt) markers \<Longrightarrow> make_marker mt = Inr m \<Longrightarrow>
         search_at s (endp m + n_chars m) = Inr match' \<Longrightarrow> reached s match' (markers @ [m])"

code_pred reached .

lemma reached_loop: "reached s mo acc \<Longrightarrow> get_markers s = markers_loop s mo acc"
proof (induction rule: reached.induct)
  case (start s)
  show ?case by (simp add: get_markers_def)
next
  case (turn s mt markers m match')
  then show ?case by (simp add: markers_loop.simps(2))
qed





lemma reached_far_position:
  assumes "reached s (Some mt) acc" and "make_marker mt = Inr m"
    and "sys_maxsize < endp m + n_chars m"
  shows "get_markers s = Inl OverflowError"
  using reached_loop[OF assms(1)] assms(2,3)
  by (simp add: markers_loop.simps(2) search_at_def)

lemma reached_truncated:
  assumes "reached s (Some mt) acc" and "make_marker mt = Inr m"
    and over: "length s < endp m + n_chars m" and fit: "endp m + n_chars m \<le> sys_maxsize"
  shows "get_markers s = Inr (acc @ [m])"
proof -
  from over have "drop (endp m + n_chars m) s = []" by simp
  then have "search s (endp m + n_chars m) = None" by (simp only: search_def search_list.simps)
  with fit have "search_at s (endp m + n_chars m) = Inr None" by (simp add: search_at_def)
  with reached_loop[OF assms(1)] assms(2) show ?thesis by (simp add: markers_loop.simps(2))
qed



section \<open>Markers whose data ends after the sequence\<close>

lemma truncated_data_region:
  "length s < endp m + n_chars m \<Longrightarrow> data_region s m = drop (endp m) s"
  by (simp add: slice_def)



lemma part2_Inl:
  "get_markers s = Inl e \<Longrightarrow> get_length_decompressed_sequence_part2 s = Inl e"
  by (simp add: part2_unfold)

lemma part1_Inl:
  "get_markers s = Inl e \<Longrightarrow> get_length_decompressed_sequence_part1 s = Inl e"
  by (simp add: get_length_decompressed_sequence_part1_def)

lemma part1_Inr:
  "get_markers s = Inr ms \<Longrightarrow> get_length_decompressed_sequence_part1 s =
     Inr ((\<Sum>k\<leftarrow>ms. int (n_chars k) * int (n_reps k) - int (n_chars k) - mlength k) + int (length s))"
proof -
  have "get_length_decompressed_marker =
        (\<lambda>k. int (n_chars k) * int (n_reps k) - int (n_chars k) - mlength k)"
    by (intro ext) (simp add: get_length_decompressed_marker_def)
  then show "get_markers s = Inr ms \<Longrightarrow> ?thesis"
    by (simp add: get_length_decompressed_sequence_part1_def)
qed

lemma part2_sub_error:
  assumes g: "get_markers s = Inr ms" and k: "k \<in> set ms"
    and e: "get_length_decompressed_sequence_part2 (data_region s k) = Inl e"
  shows "\<exists>e'. get_length_decompressed_sequence_part2 s = Inl e'"
proof (cases "get_length_decompressed_sequence_part2 s")
  case (Inl e')
  then show ?thesis by blast
next
  case (Inr r)
  from part2_InrD(1)[OF Inr g] k e show ?thesis by simp
qed

text \<open>
  C6 says that both calculators fail when the data of a marker would end after the end
  of the sequence. On \<^verbatim>\<open>(5x2)AB\<close> the marker declares five characters of data and two
  are there; the flat calculator returns 7 and the recursive calculator returns 1.
\<close>

theorem truncated_marker_example:
  "get_markers ''(5x2)AB'' = Inr [\<lparr>start = 0, endp = 5, n_chars = 5, n_reps = 2\<rparr>]
   \<and> length ''(5x2)AB'' < 5 + 5
   \<and> get_length_decompressed_sequence_part1 ''(5x2)AB'' = Inr 7
   \<and> get_length_decompressed_sequence_part2 ''(5x2)AB'' = Inr 1"
  by code_simp

text \<open>
  C6, amended: the source has no check for a marker whose data would end after the end
  of the sequence. When the scanner comes to such a marker, the data of the marker is
  what is left of the sequence after the marker. If \<open>end + chars\<close> is more than
  \<^verbatim>\<open>sys.maxsize\<close>, the search for the next marker raises \<^verbatim>\<open>OverflowError\<close>, and so do
  the scanner and both calculators. Otherwise the marker is the last one that the
  scanner returns; the flat calculator returns the length of the sequence plus the sum
  of \<^verbatim>\<open>n_chars * n_reps - n_chars - length\<close> over the markers, with the declared count;
  and the recursive calculator returns, with the declared count subtracted, when its
  recursive calls on the data of the markers return, and raises when one of them raises.
\<close>

theorem truncated_marker_outcome:
  "reached s (Some mt) acc \<Longrightarrow> make_marker mt = Inr m \<Longrightarrow> length s < endp m + n_chars m \<Longrightarrow>
     data_region s m = drop (endp m) s
     \<and> (sys_maxsize < endp m + n_chars m \<longrightarrow>
          get_markers s = Inl OverflowError
          \<and> get_length_decompressed_sequence_part1 s = Inl OverflowError
          \<and> get_length_decompressed_sequence_part2 s = Inl OverflowError)
     \<and> (endp m + n_chars m \<le> sys_maxsize \<longrightarrow>
          get_markers s = Inr (acc @ [m])
          \<and> get_length_decompressed_sequence_part1 s =
              Inr ((\<Sum>k\<leftarrow>acc @ [m]. int (n_chars k) * int (n_reps k) - int (n_chars k) - mlength k)
                   + int (length s))
          \<and> ((\<forall>k \<in> set (acc @ [m]).
                  get_length_decompressed_sequence_part2 (data_region s k) = Inr (d k)) \<longrightarrow>
               get_length_decompressed_sequence_part2 s =
                 Inr (int (length s)
                      + (\<Sum>k\<leftarrow>acc @ [m]. int (n_reps k) * d k - (int (n_chars k) + mlength k))))
          \<and> ((\<exists>k \<in> set (acc @ [m]). \<exists>e.
                  get_length_decompressed_sequence_part2 (data_region s k) = Inl e) \<longrightarrow>
               (\<exists>e. get_length_decompressed_sequence_part2 s = Inl e)))"
proof (intro conjI impI)
  assume r: "reached s (Some mt) acc" and mk: "make_marker mt = Inr m"
    and over: "length s < endp m + n_chars m"
  show "data_region s m = drop (endp m) s" by (rule truncated_data_region[OF over])
  {
    assume far: "sys_maxsize < endp m + n_chars m"
    show g: "get_markers s = Inl OverflowError" by (rule reached_far_position[OF r mk far])
    show "get_length_decompressed_sequence_part1 s = Inl OverflowError" by (rule part1_Inl[OF g])
    show "get_length_decompressed_sequence_part2 s = Inl OverflowError" by (rule part2_Inl[OF g])
  }
  {
    assume fit: "endp m + n_chars m \<le> sys_maxsize"
    show g: "get_markers s = Inr (acc @ [m])" by (rule reached_truncated[OF r mk over fit])
    show "get_length_decompressed_sequence_part1 s =
              Inr ((\<Sum>k\<leftarrow>acc @ [m]. int (n_chars k) * int (n_reps k) - int (n_chars k) - mlength k)
                   + int (length s))" by (rule part1_Inr[OF g])
    assume "\<forall>k \<in> set (acc @ [m]).
                  get_length_decompressed_sequence_part2 (data_region s k) = Inr (d k)"
    from part2_InrI[OF g this]
    show "get_length_decompressed_sequence_part2 s =
                 Inr (int (length s)
                      + (\<Sum>k\<leftarrow>acc @ [m]. int (n_reps k) * d k - (int (n_chars k) + mlength k)))" .
  }
  {
    assume fit: "endp m + n_chars m \<le> sys_maxsize"
      and "\<exists>k \<in> set (acc @ [m]). \<exists>e.
                  get_length_decompressed_sequence_part2 (data_region s k) = Inl e"
    then obtain k e where "k \<in> set (acc @ [m])"
      and "get_length_decompressed_sequence_part2 (data_region s k) = Inl e" by blast
    from part2_sub_error[OF reached_truncated[OF r mk over fit] this]
    show "\<exists>e. get_length_decompressed_sequence_part2 s = Inl e" .
  }
qed

theorem truncated_marker_outcome_witness:
  "reached ''A(1x5)BC(5x2)AB'' (Some \<lparr>m_start = 8, m_end = 13, group1 = ''5'', group2 = ''2''\<rparr>)
      [\<lparr>start = 1, endp = 6, n_chars = 1, n_reps = 5\<rparr>]
   \<and> length ''A(1x5)BC(5x2)AB'' < 13 + 5
   \<and> slice ''A(1x5)BC(5x2)AB'' 13 (13 + 5) = ''AB''
   \<and> get_markers ''A(1x5)BC(5x2)AB'' =
        Inr [\<lparr>start = 1, endp = 6, n_chars = 1, n_reps = 5\<rparr>, \<lparr>start = 8, endp = 13, n_chars = 5, n_reps = 2\<rparr>]
   \<and> get_length_decompressed_sequence_part1 ''A(1x5)BC(5x2)AB'' = Inr 14
   \<and> get_length_decompressed_sequence_part2 ''A(1x5)BC(5x2)AB'' = Inr 8
   \<and> reached ''(9223372036854775807x1)''
        (Some \<lparr>m_start = 0, m_end = 23, group1 = ''9223372036854775807'', group2 = ''1''\<rparr>) []
   \<and> length ''(9223372036854775807x1)'' < 23 + 9223372036854775807
   \<and> get_markers ''(9223372036854775807x1)'' = Inl OverflowError
   \<and> get_length_decompressed_sequence_part1 ''(9223372036854775807x1)'' = Inl OverflowError
   \<and> get_length_decompressed_sequence_part2 ''(9223372036854775807x1)'' = Inl OverflowError
   \<and> reached ''(30x1)(9223372036854775807x1)AB''
        (Some \<lparr>m_start = 0, m_end = 6, group1 = ''30'', group2 = ''1''\<rparr>) []
   \<and> length ''(30x1)(9223372036854775807x1)AB'' < 6 + 30
   \<and> get_markers ''(30x1)(9223372036854775807x1)AB'' =
        Inr [\<lparr>start = 0, endp = 6, n_chars = 30, n_reps = 1\<rparr>]
   \<and> get_length_decompressed_sequence_part1 ''(30x1)(9223372036854775807x1)AB'' = Inr 25
   \<and> get_length_decompressed_sequence_part2 (slice ''(30x1)(9223372036854775807x1)AB'' 6 (6 + 30))
        = Inl OverflowError
   \<and> (\<exists>e. get_length_decompressed_sequence_part2 ''(30x1)(9223372036854775807x1)AB'' = Inl e)"
proof -
  let ?s = "''A(1x5)BC(5x2)AB''"
  let ?ta = "\<lparr>m_start = 1, m_end = 6, group1 = ''1'', group2 = ''5''\<rparr>"
  let ?tb = "\<lparr>m_start = 8, m_end = 13, group1 = ''5'', group2 = ''2''\<rparr>"
  let ?a = "\<lparr>start = 1, endp = 6, n_chars = 1, n_reps = 5\<rparr>"
  let ?b = "\<lparr>start = 8, endp = 13, n_chars = 5, n_reps = 2\<rparr>"
  have s0: "search ?s 0 = Some ?ta" by code_simp
  have ma: "make_marker ?ta = Inr ?a" by code_simp
  have sa: "search_at ?s (endp ?a + n_chars ?a) = Inr (Some ?tb)" by code_simp
  have mb: "make_marker ?tb = Inr ?b" by code_simp
  have "reached ?s (search ?s 0) []" by (rule reached.start)
  then have "reached ?s (Some ?ta) []" by (simp only: s0)
  from reached.turn[OF this ma sa] have rb: "reached ?s (Some ?tb) [?a]" by simp
  have over: "length ?s < endp ?b + n_chars ?b" by simp
  have len: "length ?s < 13 + 5" by simp
  have fit: "endp ?b + n_chars ?b \<le> sys_maxsize" by (simp add: sys_maxsize_def)
  have da: "get_length_decompressed_sequence_part2 (data_region ?s ?a) = Inr 1" by code_simp
  have db: "get_length_decompressed_sequence_part2 (data_region ?s ?b) = Inr 2" by code_simp
  have subs: "\<forall>k \<in> set ([?a] @ [?b]). get_length_decompressed_sequence_part2 (data_region ?s k)
                = Inr ((\<lambda>k. if k = ?a then 1 else 2) k)"
    using da db by simp
  note t = truncated_marker_outcome[OF rb mb over, of "\<lambda>k. if k = ?a then 1 else 2"]
  from t have "data_region ?s ?b = drop (endp ?b) ?s" by (rule conjunct1)
  then have sl: "slice ?s 13 (13 + 5) = ''AB''" by simp
  note ok = t[THEN conjunct2, THEN conjunct2, THEN mp, OF fit]
  from ok[THEN conjunct1] have g: "get_markers ?s = Inr [?a, ?b]" by simp
  from ok[THEN conjunct2, THEN conjunct1]
  have p1: "get_length_decompressed_sequence_part1 ?s = Inr 14" by (simp add: mlength_def)
  from ok[THEN conjunct2, THEN conjunct2, THEN conjunct1, THEN mp, OF subs]
  have p2: "get_length_decompressed_sequence_part2 ?s = Inr 8" by (simp add: mlength_def)
  let ?u = "''(9223372036854775807x1)''"
  let ?tc = "\<lparr>m_start = 0, m_end = 23, group1 = ''9223372036854775807'', group2 = ''1''\<rparr>"
  let ?c = "\<lparr>start = 0, endp = 23, n_chars = 9223372036854775807, n_reps = 1\<rparr>"
  have u0: "search ?u 0 = Some ?tc" by code_simp
  have mc: "make_marker ?tc = Inr ?c" by code_simp
  have "reached ?u (search ?u 0) []" by (rule reached.start)
  then have rc: "reached ?u (Some ?tc) []" by (simp only: u0)
  have overc: "length ?u < endp ?c + n_chars ?c" by simp
  have lenc: "length ?u < 23 + 9223372036854775807" by simp
  have far: "sys_maxsize < endp ?c + n_chars ?c" by (simp add: sys_maxsize_def)
  note e = truncated_marker_outcome[OF rc mc overc, THEN conjunct2, THEN conjunct1, THEN mp, OF far]
  let ?v = "''(30x1)(9223372036854775807x1)AB''"
  let ?td = "\<lparr>m_start = 0, m_end = 6, group1 = ''30'', group2 = ''1''\<rparr>"
  let ?d = "\<lparr>start = 0, endp = 6, n_chars = 30, n_reps = 1\<rparr>"
  have v0: "search ?v 0 = Some ?td" by code_simp
  have md: "make_marker ?td = Inr ?d" by code_simp
  have "reached ?v (search ?v 0) []" by (rule reached.start)
  then have rd: "reached ?v (Some ?td) []" by (simp only: v0)
  have overd: "length ?v < endp ?d + n_chars ?d" by simp
  have lend: "length ?v < 6 + 30" by simp
  have fitd: "endp ?d + n_chars ?d \<le> sys_maxsize" by (simp add: sys_maxsize_def)
  have sub: "get_length_decompressed_sequence_part2 (slice ?v 6 (6 + 30)) = Inl OverflowError"
    by code_simp
  then have bad: "\<exists>k \<in> set ([] @ [?d]). \<exists>e.
      get_length_decompressed_sequence_part2 (data_region ?v k) = Inl e" by simp
  note okd = truncated_marker_outcome[OF rd md overd, THEN conjunct2, THEN conjunct2, THEN mp, OF fitd]
  from okd[THEN conjunct1] have gd: "get_markers ?v = Inr [?d]" by simp
  from okd[THEN conjunct2, THEN conjunct1]
  have p1d: "get_length_decompressed_sequence_part1 ?v = Inr 25" by (simp add: mlength_def)
  note p2d = okd[THEN conjunct2, THEN conjunct2, THEN conjunct2, THEN mp, OF bad]
  show ?thesis
  proof (intro conjI)
    show "reached ?v (Some ?td) []" by (rule rd)
    show "length ?v < 6 + 30" by (rule lend)
    show "get_markers ?v = Inr [?d]" by (rule gd)
    show "get_length_decompressed_sequence_part1 ?v = Inr 25" by (rule p1d)
    show "get_length_decompressed_sequence_part2 (slice ?v 6 (6 + 30)) = Inl OverflowError"
      by (rule sub)
    show "\<exists>e. get_length_decompressed_sequence_part2 ?v = Inl e" by (rule p2d)
    show "reached ?s (Some ?tb) [?a]" by (rule rb)
    show "length ?s < 13 + 5" by (rule len)
    show "slice ?s 13 (13 + 5) = ''AB''" by (rule sl)
    show "get_markers ?s = Inr [?a, ?b]" by (rule g)
    show "get_length_decompressed_sequence_part1 ?s = Inr 14" by (rule p1)
    show "get_length_decompressed_sequence_part2 ?s = Inr 8" by (rule p2)
    show "reached ?u (Some ?tc) []" by (rule rc)
    show "length ?u < 23 + 9223372036854775807" by (rule lenc)
    show "get_markers ?u = Inl OverflowError" by (rule e[THEN conjunct1])
    show "get_length_decompressed_sequence_part1 ?u = Inl OverflowError"
      by (rule e[THEN conjunct2, THEN conjunct1])
    show "get_length_decompressed_sequence_part2 ?u = Inl OverflowError"
      by (rule e[THEN conjunct2, THEN conjunct2])
  qed
qed

section \<open>The limits of the numbers in a marker\<close>



end
